theory Spec2Isabelle
  imports Main
begin

section \<open>Exceptions\<close>

text \<open>
  Every exception the renderer can raise is a value.  The message of a \<open>ValueError\<close> is kept
  in structured form: the format template is the constructor, its argument the payload.
  \<^item> \<open>Invalid_page_range part\<close> is \<^verbatim>\<open>f"Invalid page range: {part}"\<close>,
  \<^item> \<open>Invalid_page_number p\<close> is \<^verbatim>\<open>f"Invalid page number: {p}"\<close>,
  \<^item> \<open>Invalid_literal s\<close> is the message of \<^verbatim>\<open>int(s)\<close> on a string that is no integer
    literal, and \<open>Exceeds_digit_limit\<close> its message on a literal with more digits than the
    interpreter converts.
\<close>

datatype msg =
    Invalid_page_range string
  | Invalid_page_number int
  | Invalid_literal string
  | Exceeds_digit_limit

datatype exn =
    ValueError msg
  | FileNotFoundError string
  | RuntimeError
  | OSError

section \<open>The string operations of the interpreter\<close>

text \<open>
  A Python string is modelled as a \<open>string\<close>, one \<open>char\<close> per code point, so the model
  covers the code points up to U+00FF.  \<open>isspace\<close> is \<^verbatim>\<open>str.isspace\<close> on that range, the
  characters \<^verbatim>\<open>str.strip()\<close> removes.
\<close>

definition isspace :: "char \<Rightarrow> bool" where
  "isspace c = (let k = (of_char c :: nat) in
     (9 \<le> k \<and> k \<le> 13) \<or> (28 \<le> k \<and> k \<le> 32) \<or> k = 133 \<or> k = 160)"

definition strip :: "string \<Rightarrow> string" where
  "strip s = rev (dropWhile isspace (rev (dropWhile isspace s)))"

text \<open>\<^verbatim>\<open>s.split(sep)\<close> for a one-character separator: never the empty list.\<close>

fun split :: "char \<Rightarrow> string \<Rightarrow> string list" where
  "split sep [] = [] # []"
| "split sep (c # cs) =
     (if c = sep then [] # split sep cs
      else (case split sep cs of
              [] \<Rightarrow> [c] # []
            | t # ts \<Rightarrow> (c # t) # ts))"

text \<open>\<^verbatim>\<open>s.split(sep, 1)\<close> on a string that contains \<open>sep\<close>: the parts around its first
  occurrence.\<close>

definition split1 :: "char \<Rightarrow> string \<Rightarrow> string \<times> string" where
  "split1 sep s = (takeWhile (\<lambda>c. c \<noteq> sep) s, tl (dropWhile (\<lambda>c. c \<noteq> sep) s))"

subsection \<open>\<^verbatim>\<open>int(s)\<close>\<close>

text \<open>
  \<^verbatim>\<open>int(s)\<close> in base 10 reads optional white space, an optional sign, decimal digits in
  which single underscores may separate digits, and optional white space.  Its white space
  is narrower than that of \<^verbatim>\<open>strip\<close>: the separators U+001C to U+001F are not skipped.
  The interpreter setting \<^verbatim>\<open>sys.int_max_str_digits\<close> (\<open>lim\<close>; 0 switches it off, the default
  is 4300) bounds the digits of a literal once there are more than 640 of them.
\<close>

definition int_space :: "char \<Rightarrow> bool" where
  "int_space c = (let k = (of_char c :: nat) in
     (9 \<le> k \<and> k \<le> 13) \<or> k = 32 \<or> k = 133 \<or> k = 160)"

definition isdigit :: "char \<Rightarrow> bool" where
  "isdigit c = (let k = (of_char c :: nat) in 48 \<le> k \<and> k \<le> 57)"

definition digit_or_us :: "char \<Rightarrow> bool" where
  "digit_or_us c = (isdigit c \<or> c = CHR ''_'')"

fun double_us :: "string \<Rightarrow> bool" where
  "double_us (a # b # cs) = ((a = CHR ''_'' \<and> b = CHR ''_'') \<or> double_us (b # cs))"
| "double_us _ = False"

definition digits_value :: "string \<Rightarrow> int" where
  "digits_value ds = foldl (\<lambda>acc c. 10 * acc + (int (of_char c) - 48)) 0 ds"

definition sign_neg :: "string \<Rightarrow> bool" where
  "sign_neg s = (case s of [] \<Rightarrow> False | c # _ \<Rightarrow> c = CHR ''-'')"

definition drop_sign :: "string \<Rightarrow> string" where
  "drop_sign s = (case s of [] \<Rightarrow> [] | c # cs \<Rightarrow> if c = CHR ''+'' \<or> c = CHR ''-'' then cs else s)"

text \<open>
  The checks on a literal \<open>s\<close> once it is cut into its sign (\<open>neg\<close>), the run \<open>body\<close> of
  digits and underscores after the sign, and what follows that run (\<open>rest\<close>): the
  underscores are checked first, then the number of digits, then the trailing characters.
\<close>

definition int_checks :: "nat \<Rightarrow> string \<Rightarrow> bool \<Rightarrow> string \<Rightarrow> string \<Rightarrow> exn + int" where
  "int_checks lim s neg body rest =
     (if body = [] \<or> hd body = CHR ''_'' \<or> last body = CHR ''_'' \<or> double_us body
      then Inl (ValueError (Invalid_literal s))
      else if 640 < length (filter isdigit body) \<and> 0 < lim \<and> lim < length (filter isdigit body)
      then Inl (ValueError Exceeds_digit_limit)
      else if dropWhile int_space rest \<noteq> []
      then Inl (ValueError (Invalid_literal s))
      else Inr (if neg then - digits_value (filter isdigit body)
                else digits_value (filter isdigit body)))"

definition py_int :: "nat \<Rightarrow> string \<Rightarrow> exn + int" where
  "py_int lim s =
     (let s1 = dropWhile int_space s;
          s2 = drop_sign s1
      in int_checks lim s (sign_neg s1) (takeWhile digit_or_us s2) (dropWhile digit_or_us s2))"

section \<open>The page-range resolver\<close>

text \<open>
  One round of the loop of \<^verbatim>\<open>parse_pages\<close>: the token \<open>part\<close> (not yet stripped) is
  checked against \<open>num_pages\<close> and its pages are added to the set \<open>out\<close>.
\<close>

definition parse_part :: "nat \<Rightarrow> int \<Rightarrow> string \<Rightarrow> int set \<Rightarrow> exn + int set" where
  "parse_part lim num_pages part0 out =
     (let part = strip part0 in
      if CHR ''-'' \<in> set part then
        (case split1 (CHR ''-'') part of (sa, sb) \<Rightarrow>
           (case py_int lim sa of
              Inl e \<Rightarrow> Inl e
            | Inr a \<Rightarrow>
               (case py_int lim sb of
                  Inl e \<Rightarrow> Inl e
                | Inr b \<Rightarrow>
                    if a < 1 \<or> b < 1 \<or> a > num_pages \<or> b > num_pages \<or> a > b
                    then Inl (ValueError (Invalid_page_range part))
                    else Inr (out \<union> {a..b}))))
      else
        (case py_int lim part of
           Inl e \<Rightarrow> Inl e
         | Inr p \<Rightarrow>
             if p < 1 \<or> p > num_pages
             then Inl (ValueError (Invalid_page_number p))
             else Inr (insert p out)))"

fun parse_loop :: "nat \<Rightarrow> int \<Rightarrow> string list \<Rightarrow> int set \<Rightarrow> exn + int set" where
  "parse_loop lim num_pages [] out = Inr out"
| "parse_loop lim num_pages (part # parts) out =
     (case parse_part lim num_pages part out of
        Inl e \<Rightarrow> Inl e
      | Inr out' \<Rightarrow> parse_loop lim num_pages parts out')"

text \<open>
  \<^verbatim>\<open>parse_pages(pages_arg, num_pages)\<close>; \<open>None\<close> and the empty string are the two falsy
  values of \<^verbatim>\<open>pages_arg\<close>.  \<^verbatim>\<open>sorted(out)\<close> is \<open>sorted_list_of_set\<close>.
\<close>

definition parse_pages :: "nat \<Rightarrow> string option \<Rightarrow> int \<Rightarrow> exn + int list" where
  "parse_pages lim pages_arg num_pages =
     (case pages_arg of
        None \<Rightarrow> Inr [1..num_pages]
      | Some s \<Rightarrow>
          if s = [] then Inr [1..num_pages]
          else (case parse_loop lim num_pages (split (CHR '','') s) {} of
                  Inl e \<Rightarrow> Inl e
                | Inr out \<Rightarrow> Inr (sorted_list_of_set out)))"

section \<open>Notions of the specification, for the resolver\<close>

text \<open>
  A stripped token is a number token when it has no hyphen and \<^verbatim>\<open>int\<close> reads it, and a
  range token when it has a hyphen and \<^verbatim>\<open>int\<close> reads both sides of its first hyphen.
  \<open>all_valid\<close> says that the loop accepts every token of a list.
\<close>

definition number_token :: "nat \<Rightarrow> string \<Rightarrow> int \<Rightarrow> bool" where
  "number_token lim part p \<longleftrightarrow> CHR ''-'' \<notin> set part \<and> py_int lim part = Inr p"

definition range_token :: "nat \<Rightarrow> string \<Rightarrow> int \<Rightarrow> int \<Rightarrow> bool" where
  "range_token lim part a b \<longleftrightarrow>
     CHR ''-'' \<in> set part \<and> py_int lim (fst (split1 (CHR ''-'') part)) = Inr a
       \<and> py_int lim (snd (split1 (CHR ''-'') part)) = Inr b"

definition all_valid :: "nat \<Rightarrow> int \<Rightarrow> string list \<Rightarrow> bool" where
  "all_valid lim num_pages parts =
     (case parse_loop lim num_pages parts {} of Inl _ \<Rightarrow> False | Inr _ \<Rightarrow> True)"


text \<open>
  A stripped token is malformed when it is empty, starts with a hyphen, has two or more
  hyphens, or is not numeric: \<^verbatim>\<open>int\<close> rejects it, or one side of its hyphen.
\<close>

definition is_int :: "nat \<Rightarrow> string \<Rightarrow> bool" where
  "is_int lim s = (case py_int lim s of Inl _ \<Rightarrow> False | Inr _ \<Rightarrow> True)"

definition malformed :: "nat \<Rightarrow> string \<Rightarrow> bool" where
  "malformed lim part \<longleftrightarrow>
     part = [] \<or> take 1 part = ''-'' \<or> 2 \<le> count_list part (CHR ''-'') \<or>
     (if CHR ''-'' \<in> set part
      then \<not> is_int lim (fst (split1 (CHR ''-'') part)) \<or> \<not> is_int lim (snd (split1 (CHR ''-'') part))
      else \<not> is_int lim part)"

section \<open>Paths and formatting\<close>

text \<open>
  The functions of \<^verbatim>\<open>os.path\<close> that \<^verbatim>\<open>render\<close> calls, as \<^verbatim>\<open>posixpath\<close> defines them.
  \<^verbatim>\<open>basename\<close> is what follows the last slash.  \<^verbatim>\<open>splitext\<close> cuts the path at the last dot
  of its last component, unless only dots precede that dot in the component.
\<close>

definition basename :: "string \<Rightarrow> string" where
  "basename p = rev (takeWhile (\<lambda>c. c \<noteq> CHR ''/'') (rev p))"

definition splitext :: "string \<Rightarrow> string \<times> string" where
  "splitext p =
     (let name = basename p in
      if CHR ''.'' \<in> set (dropWhile (\<lambda>c. c = CHR ''.'') name)
      then (let ext = CHR ''.'' # rev (takeWhile (\<lambda>c. c \<noteq> CHR ''.'') (rev name))
            in (take (length p - length ext) p, ext))
      else (p, []))"

definition join :: "string \<Rightarrow> string \<Rightarrow> string" where
  "join a b =
     (if take 1 b = ''/'' then b
      else if a = [] \<or> last a = CHR ''/'' then a @ b
      else a @ ''/'' @ b)"

text \<open>\<^verbatim>\<open>str(n)\<close> for a natural number, and the format \<^verbatim>\<open>{page_num:02d}\<close>: the decimal digits,
  filled with zeros on the left up to two characters, the sign counting as one.\<close>

definition digit_char :: "nat \<Rightarrow> char" where
  "digit_char d = ''0123456789'' ! d"

function str_nat :: "nat \<Rightarrow> string" where
  "str_nat n = (if n < 10 then [digit_char n] else str_nat (n div 10) @ [digit_char (n mod 10)])"
  by pat_completeness auto
termination
  by (relation "measure (\<lambda>n. n)") auto

declare str_nat.simps [simp del]

definition format_02d :: "int \<Rightarrow> string" where
  "format_02d p =
     (if p < 0 then CHR ''-'' # str_nat (nat (- p))
      else replicate (2 - length (str_nat (nat p))) (CHR ''0'') @ str_nat (nat p))"

section \<open>The file system and the rendering library\<close>

text \<open>
  The state \<^verbatim>\<open>render\<close> works on: the regular files with their contents, the directories,
  and the paths of the documents that have an open handle.  A path names an entry by its
  exact string.
\<close>

type_synonym bytes = string

record world =
  files :: "string \<rightharpoonup> bytes"
  dirs :: "string set"
  open_docs :: "string list"

text \<open>
  What lies outside the program is a parameter, with \<open>None\<close> or \<open>False\<close> where a call raises:
  \<^item> \<open>page_count doc\<close>: \<^verbatim>\<open>fitz.open\<close> on a file with contents \<open>doc\<close>, then \<^verbatim>\<open>doc.page_count\<close>;
  \<^item> \<open>get_pixmap doc i dpi\<close>: \<^verbatim>\<open>doc[i].get_pixmap(matrix=mat, alpha=False)\<close>, where \<^verbatim>\<open>mat\<close> scales
    both axes by \<^verbatim>\<open>dpi / 72.0\<close>;
  \<^item> \<open>pix_n\<close>: the number of channels \<^verbatim>\<open>pix.n\<close>; \<open>to_gray\<close>: \<^verbatim>\<open>fitz.Pixmap(fitz.csGRAY, pix)\<close>;
  \<^item> \<open>png\<close>: the bytes \<^verbatim>\<open>pix.save\<close> writes;
  \<^item> \<open>writable path\<close>: whether the operating system lets \<open>path\<close> be created or written;
  \<^item> \<open>max_str_digits\<close>: the interpreter's digit limit for \<^verbatim>\<open>int\<close>.
\<close>

record 'pix env =
  page_count :: "bytes \<Rightarrow> int option"
  get_pixmap :: "bytes \<Rightarrow> int \<Rightarrow> int \<Rightarrow> 'pix option"
  pix_n :: "'pix \<Rightarrow> int"
  to_gray :: "'pix \<Rightarrow> 'pix"
  png :: "'pix \<Rightarrow> bytes"
  writable :: "string \<Rightarrow> bool"
  max_str_digits :: nat

definition isfile :: "world \<Rightarrow> string \<Rightarrow> bool" where
  "isfile w p = (files w p \<noteq> None)"

definition exists :: "world \<Rightarrow> string \<Rightarrow> bool" where
  "exists w p = (files w p \<noteq> None \<or> p \<in> dirs w)"

definition makedirs :: "'pix env \<Rightarrow> string \<Rightarrow> world \<Rightarrow> exn + world" where
  "makedirs env p w =
     (if writable env p then Inr (w\<lparr>dirs := insert p (dirs w)\<rparr>) else Inl OSError)"

definition write_file :: "'pix env \<Rightarrow> string \<Rightarrow> bytes \<Rightarrow> world \<Rightarrow> exn + world" where
  "write_file env p data w =
     (if writable env p then Inr (w\<lparr>files := (files w)(p \<mapsto> data)\<rparr>) else Inl OSError)"

text \<open>The two nested \<^verbatim>\<open>with open(...)\<close> blocks: read all of \<open>src\<close>, write it to \<open>dst\<close>.\<close>

definition copy_file :: "'pix env \<Rightarrow> string \<Rightarrow> string \<Rightarrow> world \<Rightarrow> exn + world" where
  "copy_file env src dst w =
     (case files w src of
        None \<Rightarrow> Inl OSError
      | Some data \<Rightarrow> write_file env dst data w)"

section \<open>The raster exporter\<close>

text \<open>The name of the file a page is saved to (lines 68 to 71).\<close>

definition out_path :: "bool \<Rightarrow> string \<Rightarrow> string \<Rightarrow> int \<Rightarrow> string" where
  "out_path single_output folder_name base page_num =
     (if single_output then join folder_name (basename base @ ''.png'')
      else join folder_name (basename base @ ''_p'' @ format_02d page_num @ ''.png''))"

text \<open>The pixmap of a page (lines 61 to 66): load the page, rasterise it, and convert it to
  grey when asked to and it has more than one channel.\<close>

definition page_pixmap :: "'pix env \<Rightarrow> bytes \<Rightarrow> int \<Rightarrow> bool \<Rightarrow> int \<Rightarrow> 'pix option" where
  "page_pixmap env doc dpi grayscale page_num =
     (case get_pixmap env doc (page_num - 1) dpi of
        None \<Rightarrow> None
      | Some pix \<Rightarrow> Some (if grayscale \<and> pix_n env pix > 1 then to_gray env pix else pix))"

text \<open>
  The loop over \<^verbatim>\<open>page_list\<close>.  An exception leaves the loop with the world as it is at
  that moment: the pages saved before stay on disk.
\<close>

fun render_loop ::
  "'pix env \<Rightarrow> bytes \<Rightarrow> int \<Rightarrow> bool \<Rightarrow> bool \<Rightarrow> string \<Rightarrow> string \<Rightarrow> int list \<Rightarrow> string list \<Rightarrow> world
     \<Rightarrow> (exn + string list) \<times> world" where
  "render_loop env doc dpi grayscale single_output folder_name base [] saved w = (Inr saved, w)"
| "render_loop env doc dpi grayscale single_output folder_name base (page_num # rest) saved w =
     (case page_pixmap env doc dpi grayscale page_num of
        None \<Rightarrow> (Inl RuntimeError, w)
      | Some pix \<Rightarrow>
          (case write_file env (out_path single_output folder_name base page_num) (png env pix) w of
             Inl e \<Rightarrow> (Inl e, w)
           | Inr w' \<Rightarrow>
               render_loop env doc dpi grayscale single_output folder_name base rest
                 (saved @ [out_path single_output folder_name base page_num]) w'))"

text \<open>
  \<^verbatim>\<open>render(pdf_path, dpi, pages, grayscale)\<close>.  The result is the exception or the list
  \<^verbatim>\<open>saved\<close>, together with the world the call leaves behind.
\<close>

definition render ::
  "'pix env \<Rightarrow> string \<Rightarrow> int \<Rightarrow> string option \<Rightarrow> bool \<Rightarrow> world \<Rightarrow> (exn + string list) \<times> world" where
  "render env pdf_path dpi pages grayscale w =
     (case files w pdf_path of
        None \<Rightarrow> (Inl (FileNotFoundError pdf_path), w)
      | Some doc \<Rightarrow>
     (case page_count env doc of
        None \<Rightarrow> (Inl RuntimeError, w)
      | Some n \<Rightarrow>
     (let w1 = w\<lparr>open_docs := pdf_path # open_docs w\<rparr> in
      case parse_pages (max_str_digits env) pages n of
        Inl e \<Rightarrow> (Inl e, w1)
      | Inr page_list \<Rightarrow>
     (let base = fst (splitext pdf_path);
          folder_name = base
      in
      case (if \<not> exists w1 folder_name then makedirs env folder_name w1 else Inr w1) of
        Inl e \<Rightarrow> (Inl e, w1)
      | Inr w2 \<Rightarrow>
     (let single_output = (length page_list = 1) in
      case render_loop env doc dpi grayscale single_output folder_name base page_list [] w2 of
        (Inl e, w3) \<Rightarrow> (Inl e, w3)
      | (Inr saved, w3) \<Rightarrow>
     (let pdf_copy_path = join folder_name (basename base @ ''.pdf'') in
      case (if \<not> exists w3 pdf_copy_path then copy_file env pdf_path pdf_copy_path w3 else Inr w3) of
        Inl e \<Rightarrow> (Inl e, w3)
      | Inr w4 \<Rightarrow>
          (Inr saved, w4\<lparr>open_docs := remove1 pdf_path (open_docs w4)\<rparr>)))))))"

section \<open>A small instance\<close>

text \<open>
  A toy library for running the exporter: a document has one page per byte, the pixmap of a
  page is that byte, every path is writable, and the digit limit is the interpreter's
  default.  \<open>disk\<close> holds one document of five pages, one of a single page under an
  upper-case extension, and one without pages.
\<close>

definition toy :: "string env" where
  "toy = \<lparr> page_count = (\<lambda>doc. Some (int (length doc))),
           get_pixmap = (\<lambda>doc i dpi. if 0 \<le> i \<and> i < int (length doc) then Some [doc ! nat i] else None),
           pix_n = (\<lambda>pix. 3),
           to_gray = (\<lambda>pix. pix),
           png = (\<lambda>pix. ''PNG'' @ pix),
           writable = (\<lambda>path. True),
           max_str_digits = 4300 \<rparr>"

definition disk :: world where
  "disk = \<lparr> files = [''doc/report.pdf'' \<mapsto> ''abcde'', ''scan.PDF'' \<mapsto> ''z'', ''blank.pdf'' \<mapsto> ''''],
            dirs = {''doc''},
            open_docs = [] \<rparr>"

section \<open>Notions of the specification, for the exporter\<close>

text \<open>
  The output directory of a source path is the path without its extension; the name the
  specification writes \<^verbatim>\<open><basename>\<close> is the last component of that, so the source's file
  name without its extension.  \<open>archive_path\<close> is where the copy of the source goes, and
  \<open>original_path\<close> where a copy under the source's own file name would go.
\<close>

definition folder_of :: "string \<Rightarrow> string" where
  "folder_of pdf_path = fst (splitext pdf_path)"

definition stem_of :: "string \<Rightarrow> string" where
  "stem_of pdf_path = basename (fst (splitext pdf_path))"

definition archive_path :: "string \<Rightarrow> string" where
  "archive_path pdf_path = join (folder_of pdf_path) (stem_of pdf_path @ ''.pdf'')"

definition original_path :: "string \<Rightarrow> string" where
  "original_path pdf_path = join (folder_of pdf_path) (basename pdf_path)"

text \<open>
  \<open>zero_padded p s\<close>: the string \<open>s\<close> is the number \<open>p\<close> in decimal digits, filled with
  zeros to two digits and no further.
\<close>

definition zero_padded :: "int \<Rightarrow> string \<Rightarrow> bool" where
  "zero_padded p s \<longleftrightarrow>
     (\<forall>c \<in> set s. isdigit c) \<and> 2 \<le> length s \<and> digits_value s = p \<and>
     (2 < length s \<longrightarrow> take 1 s \<noteq> ''0'')"

section \<open>The resolver: auxiliary facts\<close>

lemmas parse_eval =
  parse_pages_def parse_part_def strip_def isspace_def split1_def py_int_def int_checks_def
  sign_neg_def drop_sign_def int_space_def isdigit_def digit_or_us_def digits_value_def

lemma int_checks_error:
  "int_checks lim s neg body rest = Inl e \<Longrightarrow>
     e = ValueError (Invalid_literal s) \<or> e = ValueError Exceeds_digit_limit"
  by (simp add: int_checks_def split: if_split_asm)

lemma py_int_error:
  "py_int lim s = Inl e \<Longrightarrow> e = ValueError (Invalid_literal s) \<or> e = ValueError Exceeds_digit_limit"
  unfolding py_int_def Let_def by (rule int_checks_error)

lemma parse_part_error: "parse_part lim n t out = Inl e \<Longrightarrow> \<exists>m. e = ValueError m"
  by (auto simp: parse_part_def Let_def split: if_splits sum.splits prod.splits dest: py_int_error)

lemma parse_part_fail_indep:
  "parse_part lim n t out = Inl e \<Longrightarrow> parse_part lim n t out' = Inl e"
  by (auto simp: parse_part_def Let_def split: if_splits sum.splits prod.splits)

lemma parse_part_inv:
  "parse_part lim n t out = Inr out' \<Longrightarrow> finite out \<Longrightarrow> out \<subseteq> {1..n} \<Longrightarrow>
     finite out' \<and> out' \<subseteq> {1..n}"
  by (auto simp: parse_part_def Let_def split: if_splits sum.splits prod.splits)


lemma parse_loop_inv:
  "parse_loop lim n ts out = Inr out' \<Longrightarrow> finite out \<Longrightarrow> out \<subseteq> {1..n} \<Longrightarrow>
     finite out' \<and> out' \<subseteq> {1..n}"
proof (induction ts arbitrary: out)
  case Nil
  then show ?case by simp
next
  case (Cons t ts)
  from Cons.prems(1) obtain mid where
    mid: "parse_part lim n t out = Inr mid" and rest: "parse_loop lim n ts mid = Inr out'"
    by (auto split: sum.splits)
  from parse_part_inv [OF mid Cons.prems(2,3)] have "finite mid" "mid \<subseteq> {1..n}" by simp_all
  with Cons.IH [OF rest] show ?case by simp
qed


lemma parse_loop_error: "parse_loop lim n ts out = Inl e \<Longrightarrow> \<exists>m. e = ValueError m"
  by (induction ts arbitrary: out) (auto split: sum.splits dest: parse_part_error)

lemma parse_loop_append:
  "parse_loop lim n pre out = Inr mid \<Longrightarrow>
     parse_loop lim n (pre @ ts) out = parse_loop lim n ts mid"
  by (induction pre arbitrary: out) (auto split: sum.splits)

lemma parse_loop_fails:
  "t \<in> set ts \<Longrightarrow> parse_part lim n t o1 = Inl e \<Longrightarrow> \<exists>m. parse_loop lim n ts out = Inl (ValueError m)"
proof (induction ts arbitrary: out)
  case Nil
  then show ?case by simp
next
  case (Cons u us)
  show ?case
  proof (cases "parse_part lim n u out")
    case (Inl e')
    then show ?thesis using parse_part_error [OF Inl] by auto
  next
    case (Inr mid)
    have "u \<noteq> t"
    proof
      assume "u = t"
      with Inr parse_part_fail_indep [OF Cons.prems(2), of out] show False by simp
    qed
    with Cons.prems(1) have "t \<in> set us" by simp
    from Cons.IH [OF this Cons.prems(2), of mid] Inr show ?thesis by simp
  qed
qed


lemma digits_value_nonneg_aux:
  "0 \<le> a \<Longrightarrow> \<forall>c \<in> set ds. isdigit c \<Longrightarrow>
     0 \<le> foldl (\<lambda>acc c. 10 * acc + (int (of_char c) - 48)) a ds"
  by (induction ds arbitrary: a) (auto simp: isdigit_def Let_def)

lemma digits_value_nonneg: "0 \<le> digits_value (filter isdigit body)"
  unfolding digits_value_def by (rule digits_value_nonneg_aux) auto

lemma int_checks_Inr:
  "int_checks lim s neg body rest = Inr v \<Longrightarrow>
     body \<noteq> [] \<and> dropWhile int_space rest = [] \<and>
     v = (if neg then - digits_value (filter isdigit body) else digits_value (filter isdigit body))"
  by (simp add: int_checks_def split: if_split_asm)

lemma drop_sign_cases:
  "s1 = drop_sign s1 \<or> s1 = CHR ''+'' # drop_sign s1 \<or> (sign_neg s1 \<and> s1 = CHR ''-'' # drop_sign s1)"
  by (cases s1) (auto simp: drop_sign_def sign_neg_def)

lemma hyphen_not_space: "\<not> int_space (CHR ''-'')" "\<not> digit_or_us (CHR ''-'')"
  by (simp_all add: int_space_def digit_or_us_def isdigit_def)

lemma py_int_hyphen_nonpos:
  assumes ok: "py_int lim s = Inr v" and hy: "CHR ''-'' \<in> set s"
  shows "v \<le> 0"
proof -
  define s1 where "s1 = dropWhile int_space s"
  define s2 where "s2 = drop_sign s1"
  define body where "body = takeWhile digit_or_us s2"
  define rest where "rest = dropWhile digit_or_us s2"
  from ok have chk: "int_checks lim s (sign_neg s1) body rest = Inr v"
    by (simp add: py_int_def Let_def s1_def s2_def body_def rest_def)
  from int_checks_Inr [OF chk] have
    rest: "dropWhile int_space rest = []" and
    v: "v = (if sign_neg s1 then - digits_value (filter isdigit body)
             else digits_value (filter isdigit body))"
    by simp_all
  have "sign_neg s1"
  proof (rule ccontr)
    assume nn: "\<not> sign_neg s1"
    have "CHR ''-'' \<notin> set (takeWhile int_space s)"
      using hyphen_not_space(1) by (auto dest: set_takeWhileD)
    moreover have "s = takeWhile int_space s @ s1" by (simp add: s1_def)
    ultimately have in1: "CHR ''-'' \<in> set s1" using hy
      by (metis Un_iff set_append)
    from drop_sign_cases [of s1] nn have "s1 = s2 \<or> s1 = CHR ''+'' # s2"
      by (auto simp: s2_def)
    with in1 have in2: "CHR ''-'' \<in> set s2" by auto
    have "s2 = body @ rest" by (simp add: body_def rest_def)
    moreover have "CHR ''-'' \<notin> set body"
      unfolding body_def using hyphen_not_space(2) by (auto dest: set_takeWhileD)
    moreover from rest have "\<forall>c \<in> set rest. int_space c"
      by (simp add: dropWhile_eq_Nil_conv)
    then have "CHR ''-'' \<notin> set rest" using hyphen_not_space(1) by auto
    ultimately show False using in2 by (metis Un_iff set_append)
  qed
  with v digits_value_nonneg [of body] show ?thesis by simp
qed

lemma py_int_Nil: "py_int lim [] = Inl (ValueError (Invalid_literal []))"
  by (simp add: py_int_def int_checks_def drop_sign_def)

lemma count_tl_dropWhile:
  "2 \<le> count_list s c \<Longrightarrow> c \<in> set (tl (dropWhile (\<lambda>x. x \<noteq> c) s))"
proof (induction s)
  case Nil
  then show ?case by simp
next
  case (Cons x xs)
  show ?case
  proof (cases "x = c")
    case True
    with Cons.prems have "1 \<le> count_list xs c" by simp
    then have "c \<in> set xs" by (metis count_list_0_iff not_one_le_zero)
    with True show ?thesis by simp
  next
    case False
    with Cons show ?thesis by simp
  qed
qed

lemma malformed_part_fails:
  assumes "malformed lim (strip t)"
  shows "\<exists>e. parse_part lim n t out = Inl e"
proof -
  define part where "part = strip t"
  from assms have m: "malformed lim part" by (simp add: part_def)
  show ?thesis
  proof (cases "CHR ''-'' \<in> set part")
    case False
    then have "take 1 part \<noteq> ''-''" by (cases part) auto
    with m False have "\<not> is_int lim part"
      by (auto simp: malformed_def is_int_def py_int_Nil)
    with False show ?thesis
      by (auto simp: parse_part_def Let_def part_def [symmetric] is_int_def split: sum.splits)
  next
    case True
    define sa where "sa = fst (split1 (CHR ''-'') part)"
    define sb where "sb = snd (split1 (CHR ''-'') part)"
    have sp: "split1 (CHR ''-'') part = (sa, sb)" by (simp add: sa_def sb_def)
    have "(\<exists>e. py_int lim sa = Inl e) \<or> (\<exists>e. py_int lim sb = Inl e) \<or> (\<exists>b. py_int lim sb = Inr b \<and> b < 1)"
    proof (cases "part = [] \<or> take 1 part = ''-''")
      case True
      with \<open>CHR ''-'' \<in> set part\<close> have "sa = []"
        by (cases part) (auto simp: sa_def split1_def)
      then show ?thesis by (simp add: py_int_Nil)
    next
      case nl: False
      show ?thesis
      proof (cases "2 \<le> count_list part (CHR ''-'')")
        case True
        then have "CHR ''-'' \<in> set sb"
          unfolding sb_def split1_def by (simp add: count_tl_dropWhile)
        then show ?thesis
          using py_int_hyphen_nonpos [of lim sb] by (cases "py_int lim sb") force+
      next
        case False
        with m nl \<open>CHR ''-'' \<in> set part\<close> have "\<not> is_int lim sa \<or> \<not> is_int lim sb"
          by (simp add: malformed_def sa_def sb_def)
        then show ?thesis by (auto simp: is_int_def split: sum.splits)
      qed
    qed
    with True sp show ?thesis
      by (auto simp: parse_part_def Let_def part_def [symmetric] split: sum.splits)
  qed
qed

lemma parse_pages_sound: "parse_pages lim pages_arg num_pages = Inr ps \<Longrightarrow>
   sorted_wrt (<) ps \<and> distinct ps \<and> (\<forall>p \<in> set ps. 1 \<le> p \<and> p \<le> num_pages)"
proof -
  assume ok: "parse_pages lim pages_arg num_pages = Inr ps"
  show ?thesis
  proof (cases "pages_arg = None \<or> pages_arg = Some []")
    case True
    with ok have "ps = [1..num_pages]" by (auto simp: parse_pages_def)
    then show ?thesis by (simp add: strict_sorted_iff [symmetric]) 
  next
    case False
    then obtain s where s: "pages_arg = Some s" "s \<noteq> []" by auto
    with ok obtain out where
      loop: "parse_loop lim num_pages (split (CHR '','') s) {} = Inr out"
      and ps: "ps = sorted_list_of_set out"
      by (auto simp: parse_pages_def split: sum.splits)
    from parse_loop_inv [OF loop] have "finite out" "out \<subseteq> {1..num_pages}" by simp_all
    with ps show ?thesis by auto 
  qed
qed



lemma parse_part_leading_hyphen:
  "take 1 (strip t) = ''-'' \<Longrightarrow>
     parse_part lim n t out = Inl (ValueError (Invalid_literal []))"
proof -
  assume h: "take 1 (strip t) = ''-''"
  then obtain r where r: "strip t = CHR ''-'' # r" by (cases "strip t") auto
  then have "split1 (CHR ''-'') (strip t) = ([], r)" by (simp add: split1_def)
  with r show ?thesis by (simp add: parse_part_def Let_def py_int_Nil)
qed

section \<open>The resolver: the claims\<close>

text \<open>
  Claim C1.  Whenever \<^verbatim>\<open>parse_pages\<close> returns a list, for any page specification (absent,
  empty or not) and any page count, the list is strictly ascending, has no duplicates, and
  every element lies between 1 and the page count.
\<close>

theorem parse_pages_ascending_in_range:
  "parse_pages lim pages_arg num_pages = Inr ps \<Longrightarrow>
     sorted_wrt (<) ps \<and> distinct ps \<and> (\<forall>p \<in> set ps. 1 \<le> p \<and> p \<le> num_pages)"
  by (rule parse_pages_sound)

theorem parse_pages_ascending_in_range_witness:
  "parse_pages 4300 (Some ''2-4,1'') 10 = Inr [1, 2, 3, 4] \<and>
   sorted_wrt (<) [1, 2, 3, 4 :: int] \<and> distinct [1, 2, 3, 4 :: int]"
proof -
  have h: "parse_pages 4300 (Some ''2-4,1'') 10 = Inr [1, 2, 3, 4]"
    by (simp add: parse_eval)
  from parse_pages_ascending_in_range [OF h] h show ?thesis by simp
qed

text \<open>
  Claim C5, as amended.  Let \<open>t\<close> be a token of a page specification.  If \<open>t\<close>, stripped,
  is a number token (no hyphen, read by \<^verbatim>\<open>int\<close>) whose value \<open>p\<close> is outside
  \<open>[1, num_pages]\<close>, the resolver fails with a \<open>ValueError\<close>, and when the tokens before
  \<open>t\<close> are accepted the error is \<open>Invalid_page_number p\<close>: it carries the value read, not the
  text of the token.  If \<open>t\<close>, stripped, is a range token whose bounds violate
  \<open>1 \<le> a \<le> b \<le> num_pages\<close>, the resolver fails with a \<open>ValueError\<close>, and when the tokens
  before \<open>t\<close> are accepted the error is \<open>Invalid_page_range\<close> of the stripped token.  If
  \<open>t\<close>, stripped, starts with a hyphen, as a negative number does, the resolver fails with
  a \<open>ValueError\<close>, and when the tokens before \<open>t\<close> are accepted the error is the one of
  \<^verbatim>\<open>int\<close> on the empty string.  The loop stops at the first token it rejects, so the error
  is the one of that token.
\<close>

theorem parse_pages_out_of_range_error:
  assumes "s \<noteq> []" and "split (CHR '','') s = pre @ t # post"
  shows "(number_token lim (strip t) p \<and> (p < 1 \<or> num_pages < p) \<longrightarrow>
            (\<exists>m. parse_pages lim (Some s) num_pages = Inl (ValueError m)) \<and>
            (all_valid lim num_pages pre \<longrightarrow>
               parse_pages lim (Some s) num_pages = Inl (ValueError (Invalid_page_number p))))
       \<and> (range_token lim (strip t) a b \<and> \<not> (1 \<le> a \<and> a \<le> b \<and> b \<le> num_pages) \<longrightarrow>
            (\<exists>m. parse_pages lim (Some s) num_pages = Inl (ValueError m)) \<and>
            (all_valid lim num_pages pre \<longrightarrow>
               parse_pages lim (Some s) num_pages = Inl (ValueError (Invalid_page_range (strip t)))))
       \<and> (take 1 (strip t) = ''-'' \<longrightarrow>
            (\<exists>m. parse_pages lim (Some s) num_pages = Inl (ValueError m)) \<and>
            (all_valid lim num_pages pre \<longrightarrow>
               parse_pages lim (Some s) num_pages = Inl (ValueError (Invalid_literal []))))"
proof -
  have tin: "t \<in> set (split (CHR '','') s)" using assms(2) by simp
  have first: "parse_pages lim (Some s) num_pages = Inl e"
    if v: "all_valid lim num_pages pre" and f: "\<And>out. parse_part lim num_pages t out = Inl e" for e
  proof -
    from v obtain mid where "parse_loop lim num_pages pre {} = Inr mid"
      by (auto simp: all_valid_def split: sum.splits)
    from parse_loop_append [OF this, of "t # post"] f [of mid] assms show ?thesis
      by (simp add: parse_pages_def)
  qed
  have anywhere: "\<exists>m. parse_pages lim (Some s) num_pages = Inl (ValueError m)"
    if f: "parse_part lim num_pages t {} = Inl e" for e
    using parse_loop_fails [OF tin f, of "{}"] assms(1) by (auto simp: parse_pages_def)
  have num: "parse_part lim num_pages t out = Inl (ValueError (Invalid_page_number p))"
    if "number_token lim (strip t) p" "p < 1 \<or> num_pages < p" for out
    using that by (auto simp: number_token_def parse_part_def Let_def)
  have rng: "parse_part lim num_pages t out = Inl (ValueError (Invalid_page_range (strip t)))"
    if "range_token lim (strip t) a b" "\<not> (1 \<le> a \<and> a \<le> b \<and> b \<le> num_pages)" for out
    using that by (auto simp: range_token_def parse_part_def Let_def split: prod.splits)
  have neg: "parse_part lim num_pages t out = Inl (ValueError (Invalid_literal []))"
    if "take 1 (strip t) = ''-''" for out
    using that by (rule parse_part_leading_hyphen)
  show ?thesis using first anywhere num rng neg by blast
qed

theorem parse_pages_out_of_range_error_witness:
  "parse_pages 4300 (Some ''0'') 5 = Inl (ValueError (Invalid_page_number 0)) \<and>
   parse_pages 4300 (Some ''6'') 5 = Inl (ValueError (Invalid_page_number 6)) \<and>
   parse_pages 4300 (Some ''3-2'') 5 = Inl (ValueError (Invalid_page_range ''3-2'')) \<and>
   parse_pages 4300 (Some ''2,-3'') 5 = Inl (ValueError (Invalid_literal []))"
proof -
  have v: "all_valid 4300 5 []" by (simp add: all_valid_def)
  have v2: "all_valid 4300 5 [''2'']" by (simp add: all_valid_def parse_eval)
  have s0: "split (CHR '','') ''0'' = [] @ ''0'' # []"
    and s6: "split (CHR '','') ''6'' = [] @ ''6'' # []"
    and s32: "split (CHR '','') ''3-2'' = [] @ ''3-2'' # []"
    and sn: "split (CHR '','') ''2,-3'' = [''2''] @ ''-3'' # []" by simp_all
  have n0: "number_token 4300 (strip ''0'') 0" and n6: "number_token 4300 (strip ''6'') 6"
    by (simp_all add: number_token_def parse_eval)
  have r32: "range_token 4300 (strip ''3-2'') 3 2"
    by (simp add: range_token_def parse_eval)
  have st: "strip ''3-2'' = ''3-2''" by (simp add: strip_def isspace_def)
  have lh: "take 1 (strip ''-3'') = ''-''" by (simp add: strip_def isspace_def)
  from parse_pages_out_of_range_error [OF _ s0, where lim = 4300 and p = 0 and num_pages = 5] n0 v
  have "parse_pages 4300 (Some ''0'') 5 = Inl (ValueError (Invalid_page_number 0))" by simp
  moreover from parse_pages_out_of_range_error [OF _ s6, where lim = 4300 and p = 6 and num_pages = 5] n6 v
  have "parse_pages 4300 (Some ''6'') 5 = Inl (ValueError (Invalid_page_number 6))" by simp
  moreover from parse_pages_out_of_range_error [OF _ s32, where lim = 4300 and a = 3 and b = 2 and num_pages = 5] r32 v st
  have "parse_pages 4300 (Some ''3-2'') 5 = Inl (ValueError (Invalid_page_range ''3-2''))" by simp
  moreover from parse_pages_out_of_range_error [OF _ sn, where lim = 4300 and num_pages = 5] lh v2
  have "parse_pages 4300 (Some ''2,-3'') 5 = Inl (ValueError (Invalid_literal []))" by simp
  ultimately show ?thesis by simp
qed

text \<open>
  Claim C5 as stated fails for a negative number: \<^verbatim>\<open>-3\<close> is a single integer outside
  \<open>[1, 5]\<close>, but the token has a hyphen, so it is split there and \<^verbatim>\<open>int\<close> fails on its
  empty left part; no \<open>Invalid_page_number\<close> is raised.  And for \<^verbatim>\<open>007\<close> the error carries
  the value 7, not the token.
\<close>

theorem parse_pages_negative_number_counterexample:
  "CHR ''-'' \<in> set ''-3'' \<and> py_int 4300 ''-3'' = Inr (- 3) \<and>
   parse_pages 4300 (Some ''-3'') 5 = Inl (ValueError (Invalid_literal [])) \<and>
   parse_pages 4300 (Some ''-3'') 5 \<noteq> Inl (ValueError (Invalid_page_number (- 3))) \<and>
   parse_pages 4300 (Some ''007'') 5 = Inl (ValueError (Invalid_page_number 7))"
  by (simp add: parse_eval)

text \<open>
  Claim C6.  For a page count \<open>N \<ge> 1\<close>, the absent and the empty page specification both
  resolve to the same list, of length \<open>N\<close>, whose element at index \<open>i\<close> is \<open>i + 1\<close>: the
  list \<open>1, 2, ..., N\<close>.
\<close>

theorem parse_pages_all_pages:
  "1 \<le> N \<Longrightarrow>
     \<exists>ps. parse_pages lim None N = Inr ps \<and> parse_pages lim (Some []) N = Inr ps \<and>
          length ps = nat N \<and> (\<forall>i < nat N. ps ! i = int i + 1)"
  by (simp add: parse_pages_def)

theorem parse_pages_all_pages_witness:
  "(1::int) \<le> 3 \<and> parse_pages 4300 None 3 = Inr [1, 2, 3] \<and> parse_pages 4300 (Some []) 3 = Inr [1, 2, 3]"
proof -
  have h: "(1::int) \<le> 3" by simp
  from parse_pages_all_pages [OF h, of 4300] h show ?thesis
    by (simp add: parse_pages_def upto.simps)
qed



text \<open>
  Claim C10.  If any token of a non-empty page specification is malformed once stripped
  (empty, starting with a hyphen, with two or more hyphens, or not numeric), then
  \<^verbatim>\<open>parse_pages\<close> raises a \<open>ValueError\<close>: it returns no page list, whatever the other tokens
  are.
\<close>

theorem parse_pages_malformed_token:
  "s \<noteq> [] \<Longrightarrow> t \<in> set (split (CHR '','') s) \<Longrightarrow> malformed lim (strip t) \<Longrightarrow>
     \<exists>m. parse_pages lim (Some s) num_pages = Inl (ValueError m)"
proof -
  assume s: "s \<noteq> []" and t: "t \<in> set (split (CHR '','') s)" and m: "malformed lim (strip t)"
  from malformed_part_fails [OF m] obtain e where "parse_part lim num_pages t {} = Inl e" by blast
  from parse_loop_fails [OF t this, of "{}"] s show ?thesis
    by (auto simp: parse_pages_def)
qed

theorem parse_pages_malformed_token_witness:
  "(\<exists>m. parse_pages 4300 (Some ''1,abc'') 5 = Inl (ValueError m)) \<and>
   (\<exists>m. parse_pages 4300 (Some ''1,,2'') 5 = Inl (ValueError m)) \<and>
   (\<exists>m. parse_pages 4300 (Some ''-2'') 5 = Inl (ValueError m)) \<and>
   (\<exists>m. parse_pages 4300 (Some ''1-2-3'') 5 = Inl (ValueError m))"
proof -
  have a: "''abc'' \<in> set (split (CHR '','') ''1,abc'')" "malformed 4300 (strip ''abc'')"
    by (simp_all add: malformed_def is_int_def parse_eval)
  have b: "[] \<in> set (split (CHR '','') ''1,,2'')" "malformed 4300 (strip [])"
    by (simp_all add: malformed_def strip_def)
  have c: "''-2'' \<in> set (split (CHR '','') ''-2'')" "malformed 4300 (strip ''-2'')"
    by (simp_all add: malformed_def strip_def isspace_def)
  have d: "''1-2-3'' \<in> set (split (CHR '','') ''1-2-3'')" "malformed 4300 (strip ''1-2-3'')"
    by (simp_all add: malformed_def strip_def isspace_def)
  from parse_pages_malformed_token [OF _ a, of 5] parse_pages_malformed_token [OF _ b, of 5] parse_pages_malformed_token [OF _ c, of 5] parse_pages_malformed_token [OF _ d, of 5]
  show ?thesis by simp
qed

section \<open>The exporter: auxiliary facts\<close>

subsection \<open>Paths\<close>

lemma basename_no_slash: "CHR ''/'' \<notin> set (basename p)"
  by (auto simp: basename_def dest: set_takeWhileD)

lemma basename_append: "p = rev (dropWhile (\<lambda>c. c \<noteq> CHR ''/'') (rev p)) @ basename p"
proof -
  have "rev (takeWhile (\<lambda>c. c \<noteq> CHR ''/'') (rev p) @ dropWhile (\<lambda>c. c \<noteq> CHR ''/'') (rev p)) = p"
    by (simp only: takeWhile_dropWhile_id rev_rev_ident)
  then have "rev (dropWhile (\<lambda>c. c \<noteq> CHR ''/'') (rev p)) @ rev (takeWhile (\<lambda>c. c \<noteq> CHR ''/'') (rev p)) = p"
    by (simp only: rev_append)
  then show ?thesis unfolding basename_def by (rule sym)
qed

lemma basename_Nil_iff: "basename p = [] \<longleftrightarrow> p = [] \<or> last p = CHR ''/''"
  by (cases p rule: rev_cases) (auto simp: basename_def)

lemma basename_app_noslash:
  "CHR ''/'' \<notin> set t \<Longrightarrow> basename (d @ t) = basename d @ t"
  by (induction t rule: rev_induct) (auto simp: basename_def simp flip: append_assoc)

lemma splitext_cases:
  assumes "splitext p = (base, ext)"
  shows "p = base @ ext \<and> (ext = [] \<or> (take 1 ext = ''.'' \<and> base \<noteq> [] \<and> last base \<noteq> CHR ''/''))"
proof (cases "CHR ''.'' \<in> set (dropWhile (\<lambda>c. c = CHR ''.'') (basename p))")
  case False
  with assms show ?thesis by (simp add: splitext_def Let_def)
next
  case True
  define name where "name = basename p"
  define q where "q = rev name"
  define e where "e = takeWhile (\<lambda>c. c \<noteq> CHR ''.'') q"
  define r where "r = tl (dropWhile (\<lambda>c. c \<noteq> CHR ''.'') q)"
  define dir where "dir = rev (dropWhile (\<lambda>c. c \<noteq> CHR ''/'') (rev p))"
  from True have dotin: "CHR ''.'' \<in> set name" by (auto simp: name_def dest: set_dropWhileD)
  then have "dropWhile (\<lambda>c. c \<noteq> CHR ''.'') q \<noteq> []" by (auto simp: q_def dropWhile_eq_Nil_conv)
  moreover have "dropWhile (\<lambda>c. c \<noteq> CHR ''.'') q = [] \<or> hd (dropWhile (\<lambda>c. c \<noteq> CHR ''.'') q) = CHR ''.''"
    using hd_dropWhile [of "\<lambda>c. c \<noteq> CHR ''.''" q] by auto
  ultimately have dw: "dropWhile (\<lambda>c. c \<noteq> CHR ''.'') q = CHR ''.'' # r"
    by (cases "dropWhile (\<lambda>c. c \<noteq> CHR ''.'') q") (auto simp: r_def)
  have "q = e @ CHR ''.'' # r" unfolding e_def dw [symmetric] by simp
  then have "rev q = rev (e @ CHR ''.'' # r)" by simp
  then have name: "name = rev r @ CHR ''.'' # rev e" by (simp add: q_def)
  have ext: "ext = CHR ''.'' # rev e" and base: "base = take (length p - length ext) p"
    using assms True by (auto simp: splitext_def Let_def e_def q_def name_def)
  have p: "p = dir @ name" unfolding dir_def name_def by (rule basename_append)
  with name ext have p2: "p = (dir @ rev r) @ ext" by simp
  then have "take (length p - length ext) p = dir @ rev r"
    by (metis append_eq_conv_conj length_append add_diff_cancel_right')
  with base have b: "base = dir @ rev r" by simp
  have e_nodot: "CHR ''.'' \<notin> set e" by (auto simp: e_def dest: set_takeWhileD)
  have "r \<noteq> []"
  proof
    assume "r = []"
    with name have "name = CHR ''.'' # rev e" by simp
    then have "dropWhile (\<lambda>c. c = CHR ''.'') name = dropWhile (\<lambda>c. c = CHR ''.'') (rev e)" by simp
    with True e_nodot show False by (auto simp: name_def dest: set_dropWhileD)
  qed
  moreover have "CHR ''/'' \<notin> set r"
  proof -
    have "CHR ''/'' \<notin> set name" unfolding name_def by (rule basename_no_slash)
    with name show ?thesis by auto
  qed
  ultimately have "base \<noteq> []" "last base \<noteq> CHR ''/''"
    using b by (auto simp: last_rev hd_in_set dest: hd_in_set)
  with p2 b ext show ?thesis by simp
qed

lemma take1_slash: "take 1 b = ''/'' \<longleftrightarrow> b \<noteq> [] \<and> hd b = CHR ''/''"
  by (cases b) auto

lemma join_cases:
  "take 1 b \<noteq> ''/'' \<Longrightarrow>
     join a b = (if a = [] \<or> last a = CHR ''/'' then a @ b else a @ ''/'' @ b)"
  by (simp add: join_def)

lemma join_last: "b \<noteq> [] \<Longrightarrow> last (join a b) = last b"
  by (simp add: join_def)

lemma join_inj: "take 1 b \<noteq> ''/'' \<Longrightarrow> take 1 b' \<noteq> ''/'' \<Longrightarrow> join a b = join a b' \<Longrightarrow> b = b'"
  by (simp add: join_def split: if_splits)

lemma join_neq_self: "b \<noteq> [] \<Longrightarrow> take 1 b \<noteq> ''/'' \<Longrightarrow> join a b \<noteq> a"
  by (simp add: join_def)

lemma join_neq_source:
  assumes sp: "splitext p = (base, ext)" and b: "b \<noteq> []" "take 1 b \<noteq> ''/''"
  shows "join base b \<noteq> p"
proof (cases "ext = []")
  case True
  with splitext_cases [OF sp] have "p = base" by simp
  with join_neq_self [OF b] show ?thesis by simp
next
  case False
  with splitext_cases [OF sp] have
    p: "p = base @ ext" and e: "take 1 ext = ''.''" and nb: "base \<noteq> []" "last base \<noteq> CHR ''/''"
    by auto
  from nb b have "join base b = base @ ''/'' @ b" by (simp add: join_def)
  moreover from e have "ext \<noteq> ''/'' @ b" by (cases ext) auto
  ultimately show ?thesis using p by simp
qed

lemma name_no_lead_slash:
  "CHR ''/'' \<notin> set s \<Longrightarrow> sfx \<noteq> [] \<Longrightarrow> hd sfx \<noteq> CHR ''/'' \<Longrightarrow>
     s @ sfx \<noteq> [] \<and> take 1 (s @ sfx) \<noteq> ''/''"
  by (cases s; cases sfx) auto

subsection \<open>Formatting\<close>

lemma of_char_digit_char: "d < 10 \<Longrightarrow> (of_char (digit_char d) :: nat) = 48 + d"
proof -
  assume "d < 10"
  then have "d = 0 \<or> d = 1 \<or> d = 2 \<or> d = 3 \<or> d = 4 \<or> d = 5 \<or> d = 6 \<or> d = 7 \<or> d = 8 \<or> d = 9"
    by arith
  then show ?thesis by (auto simp: digit_char_def)
qed

lemma isdigit_digit_char: "d < 10 \<Longrightarrow> isdigit (digit_char d)"
  by (simp add: isdigit_def of_char_digit_char)

lemma digits_value_snoc:
  "digits_value (ds @ [c]) = 10 * digits_value ds + (int (of_char c) - 48)"
  by (simp add: digits_value_def)

lemma digits_value_zeros_aux:
  "foldl (\<lambda>acc c. 10 * acc + (int (of_char c) - 48)) 0 (replicate k (CHR ''0'')) = 0"
  by (induction k) simp_all

lemma digits_value_zeros: "digits_value (replicate k (CHR ''0'') @ ds) = digits_value ds"
  by (simp add: digits_value_def digits_value_zeros_aux)

lemma str_nat_props:
  "(\<forall>c \<in> set (str_nat n). isdigit c) \<and> str_nat n \<noteq> [] \<and> digits_value (str_nat n) = int n \<and>
   (0 < n \<longrightarrow> hd (str_nat n) \<noteq> CHR ''0'') \<and> (n < 10 \<longrightarrow> length (str_nat n) = 1)"
proof (induction n rule: str_nat.induct)
  case (1 n)
  show ?case
  proof (cases "n < 10")
    case True
    then have s: "str_nat n = [digit_char n]" by (simp add: str_nat.simps)
    have "digit_char n \<noteq> CHR ''0''" if "0 < n"
    proof
      assume "digit_char n = CHR ''0''"
      then have "(of_char (digit_char n) :: nat) = of_char (CHR ''0'')" by simp
      with True that show False by (simp add: of_char_digit_char)
    qed
    with True s show ?thesis
      by (simp add: isdigit_digit_char digits_value_def of_char_digit_char)
  next
    case False
    then have s: "str_nat n = str_nat (n div 10) @ [digit_char (n mod 10)]"
      by (subst str_nat.simps) simp
    from False have pos: "0 < n div 10" by simp
    from "1.IH" [OF False] have ih:
      "\<forall>c \<in> set (str_nat (n div 10)). isdigit c" "str_nat (n div 10) \<noteq> []"
      "digits_value (str_nat (n div 10)) = int (n div 10)"
      "hd (str_nat (n div 10)) \<noteq> CHR ''0''"
      using pos by simp_all
    have m: "n mod 10 < 10" by simp
    have "10 * int (n div 10) + int (n mod 10) = int n" by presburger
    with ih m False show ?thesis
      by (simp add: s digits_value_snoc isdigit_digit_char of_char_digit_char)
  qed
qed

lemma zero_padded_format:
  assumes "0 \<le> p"
  shows "zero_padded p (format_02d p)"
proof -
  define n where "n = nat p"
  define ds where "ds = str_nat n"
  from assms have f: "format_02d p = replicate (2 - length ds) (CHR ''0'') @ ds"
    by (simp add: format_02d_def n_def ds_def)
  from str_nat_props [of n] have
    d: "\<forall>c \<in> set ds. isdigit c" and ne: "ds \<noteq> []" and v: "digits_value ds = int n"
    and h: "0 < n \<longrightarrow> hd ds \<noteq> CHR ''0''" and l: "n < 10 \<longrightarrow> length ds = 1"
    by (simp_all add: ds_def)
  have z: "isdigit (CHR ''0'')" by (simp add: isdigit_def)
  have "\<forall>c \<in> set (format_02d p). isdigit c" using d z by (auto simp: f)
  moreover have "2 \<le> length (format_02d p)" by (simp add: f)
  moreover have "digits_value (format_02d p) = p"
    using assms by (simp add: f digits_value_zeros v n_def)
  moreover have "take 1 (format_02d p) \<noteq> ''0''" if "2 < length (format_02d p)"
  proof -
    from that have len: "2 < length ds" by (simp add: f)
    then have fd: "format_02d p = ds" by (simp add: f)
    from len l have "0 < n" by (cases "n = 0") auto
    with h ne show ?thesis by (cases ds) (auto simp: fd)
  qed
  ultimately show ?thesis by (simp add: zero_padded_def)
qed

lemma format_02d_inj: "0 \<le> p \<Longrightarrow> 0 \<le> q \<Longrightarrow> format_02d p = format_02d q \<Longrightarrow> p = q"
  using zero_padded_format [of p] zero_padded_format [of q] by (simp add: zero_padded_def)

subsection \<open>The loop and the whole call\<close>

lemma write_file_Inr:
  "write_file env p d w = Inr w' \<Longrightarrow> w' = w\<lparr>files := (files w)(p \<mapsto> d)\<rparr>"
  by (simp add: write_file_def split: if_splits)

lemma render_loop_frame:
  "render_loop env doc dpi gs single folder base ps saved w = (r, w') \<Longrightarrow>
     dirs w' = dirs w \<and> open_docs w' = open_docs w \<and>
     (\<forall>q. q \<notin> out_path single folder base ` set ps \<longrightarrow> files w' q = files w q) \<and>
     (\<forall>q. files w q \<noteq> None \<longrightarrow> files w' q \<noteq> None)"
proof (induction ps arbitrary: saved w)
  case Nil
  then show ?case by simp
next
  case (Cons p ps)
  show ?case
  proof (cases "page_pixmap env doc dpi gs p")
    case None
    with Cons.prems show ?thesis by simp
  next
    case (Some pix)
    show ?thesis
    proof (cases "write_file env (out_path single folder base p) (png env pix) w")
      case (Inl e)
      with Some Cons.prems show ?thesis by simp
    next
      case (Inr w1)
      with Some Cons.prems have
        "render_loop env doc dpi gs single folder base ps (saved @ [out_path single folder base p]) w1 = (r, w')"
        by simp
      from Cons.IH [OF this] write_file_Inr [OF Inr] show ?thesis by auto
    qed
  qed
qed

lemma render_loop_saved:
  "render_loop env doc dpi gs single folder base ps saved w = (Inr saved', w') \<Longrightarrow>
     saved' = saved @ map (out_path single folder base) ps \<and>
     (\<forall>p \<in> set ps. files w' (out_path single folder base p) \<noteq> None)"
proof (induction ps arbitrary: saved w)
  case Nil
  then show ?case by simp
next
  case (Cons p ps)
  from Cons.prems obtain pix w1 where
    pix: "page_pixmap env doc dpi gs p = Some pix" and
    wr: "write_file env (out_path single folder base p) (png env pix) w = Inr w1" and
    rest: "render_loop env doc dpi gs single folder base ps (saved @ [out_path single folder base p]) w1
             = (Inr saved', w')"
    by (auto split: option.splits sum.splits)
  from write_file_Inr [OF wr] have "files w1 (out_path single folder base p) \<noteq> None" by simp
  with render_loop_frame [OF rest] have "files w' (out_path single folder base p) \<noteq> None" by blast
  with Cons.IH [OF rest] show ?case by simp
qed

lemma render_loop_contents:
  "render_loop env doc dpi gs single folder base ps saved w = (Inr saved', w') \<Longrightarrow>
   distinct ps \<Longrightarrow> inj_on (out_path single folder base) (set ps) \<Longrightarrow>
     \<forall>p \<in> set ps. page_pixmap env doc dpi gs p \<noteq> None \<and>
        files w' (out_path single folder base p) = map_option (png env) (page_pixmap env doc dpi gs p)"
proof (induction ps arbitrary: saved w)
  case Nil
  then show ?case by simp
next
  case (Cons p ps)
  from Cons.prems(1) obtain pix w1 where
    pix: "page_pixmap env doc dpi gs p = Some pix" and
    wr: "write_file env (out_path single folder base p) (png env pix) w = Inr w1" and
    rest: "render_loop env doc dpi gs single folder base ps (saved @ [out_path single folder base p]) w1
             = (Inr saved', w')"
    by (auto split: option.splits sum.splits)
  from Cons.prems(2,3) have "out_path single folder base p \<notin> out_path single folder base ` set ps"
    by auto
  with render_loop_frame [OF rest] have
    "files w' (out_path single folder base p) = files w1 (out_path single folder base p)" by blast
  with write_file_Inr [OF wr] pix have here:
    "files w' (out_path single folder base p) = map_option (png env) (page_pixmap env doc dpi gs p)"
    by simp
  from Cons.prems(2,3) have "distinct ps" "inj_on (out_path single folder base) (set ps)"
    by (simp_all add: inj_on_def)
  from Cons.IH [OF rest this] here pix show ?case by simp
qed

lemma render_Inr:
  assumes "render env pdf_path dpi pages gs w = (Inr saved, w')"
  shows "\<exists>doc n page_list w2 w3 w4.
     files w pdf_path = Some doc \<and> page_count env doc = Some n \<and>
     parse_pages (max_str_digits env) pages n = Inr page_list \<and>
     (w2 = w\<lparr>open_docs := pdf_path # open_docs w\<rparr> \<or>
      w2 = w\<lparr>open_docs := pdf_path # open_docs w, dirs := insert (folder_of pdf_path) (dirs w)\<rparr>) \<and>
     render_loop env doc dpi gs (length page_list = 1) (folder_of pdf_path) (folder_of pdf_path)
       page_list [] w2 = (Inr saved, w3) \<and>
     (if \<not> exists w3 (archive_path pdf_path)
      then copy_file env pdf_path (archive_path pdf_path) w3 else Inr w3) = Inr w4 \<and>
     w' = w4\<lparr>open_docs := remove1 pdf_path (open_docs w4)\<rparr>"
  using assms
  by (auto simp: render_def Let_def folder_of_def archive_path_def stem_of_def makedirs_def
           split: option.splits sum.splits prod.splits if_splits)

lemma stem_names:
  "sfx \<noteq> [] \<Longrightarrow> hd sfx \<noteq> CHR ''/'' \<Longrightarrow>
     stem_of pdf_path @ sfx \<noteq> [] \<and> take 1 (stem_of pdf_path @ sfx) \<noteq> ''/''"
  unfolding stem_of_def by (rule name_no_lead_slash [OF basename_no_slash])

lemma out_path_single:
  "out_path True (folder_of pdf_path) (folder_of pdf_path) p =
     join (folder_of pdf_path) (stem_of pdf_path @ ''.png'')"
  by (simp add: out_path_def folder_of_def stem_of_def)

lemma out_path_multi:
  "out_path False (folder_of pdf_path) (folder_of pdf_path) p =
     join (folder_of pdf_path) (stem_of pdf_path @ ''_p'' @ format_02d p @ ''.png'')"
  by (simp add: out_path_def folder_of_def stem_of_def)

lemma out_path_last:
  "last (out_path single (folder_of pdf_path) (folder_of pdf_path) p) = CHR ''g''"
  by (cases single) (simp_all add: out_path_single out_path_multi join_last)

lemma archive_path_last: "last (archive_path pdf_path) = CHR ''f''"
  by (simp add: archive_path_def join_last)

lemma archive_not_out_path:
  "archive_path pdf_path \<noteq> out_path single (folder_of pdf_path) (folder_of pdf_path) p"
  using out_path_last [of single pdf_path p] archive_path_last [of pdf_path] by auto

lemma archive_not_folder: "archive_path pdf_path \<noteq> folder_of pdf_path"
  unfolding archive_path_def
  using stem_names [of "''.pdf''" pdf_path] by (intro join_neq_self) simp_all

lemma splitext_folder: "splitext pdf_path = (folder_of pdf_path, snd (splitext pdf_path))"
  by (simp add: folder_of_def)

lemma archive_not_source: "archive_path pdf_path \<noteq> pdf_path"
  unfolding archive_path_def
  using stem_names [of "''.pdf''" pdf_path]
  by (intro join_neq_source [OF splitext_folder]) simp_all

lemma out_path_not_source:
  "out_path single (folder_of pdf_path) (folder_of pdf_path) p \<noteq> pdf_path"
proof (cases single)
  case True
  have "join (folder_of pdf_path) (stem_of pdf_path @ ''.png'') \<noteq> pdf_path"
    using stem_names [of "''.png''" pdf_path]
    by (intro join_neq_source [OF splitext_folder]) simp_all
  with True show ?thesis by (simp add: out_path_single)
next
  case False
  have "join (folder_of pdf_path) (stem_of pdf_path @ ''_p'' @ format_02d p @ ''.png'') \<noteq> pdf_path"
    using stem_names [of "''_p'' @ format_02d p @ ''.png''" pdf_path]
    by (intro join_neq_source [OF splitext_folder]) simp_all
  with False show ?thesis by (simp add: out_path_multi)
qed

lemma out_path_inj:
  assumes "\<forall>p \<in> set ps. 0 \<le> p"
  shows "inj_on (out_path False (folder_of pdf_path) (folder_of pdf_path)) (set ps)"
proof (rule inj_onI)
  fix p q assume p: "p \<in> set ps" and q: "q \<in> set ps"
    and eq: "out_path False (folder_of pdf_path) (folder_of pdf_path) p =
             out_path False (folder_of pdf_path) (folder_of pdf_path) q"
  from stem_names [of "''_p'' @ format_02d p @ ''.png''" pdf_path]
       stem_names [of "''_p'' @ format_02d q @ ''.png''" pdf_path]
  have "take 1 (stem_of pdf_path @ ''_p'' @ format_02d p @ ''.png'') \<noteq> ''/''"
       "take 1 (stem_of pdf_path @ ''_p'' @ format_02d q @ ''.png'') \<noteq> ''/''" by simp_all
  from join_inj [OF this eq [unfolded out_path_multi]]
  have "format_02d p = format_02d q" by simp
  with assms p q show "p = q" by (auto intro: format_02d_inj)
qed

lemma copy_step:
  assumes "(if \<not> exists w3 cp then copy_file env src cp w3 else Inr w3) = Inr w4"
  shows "dirs w4 = dirs w3 \<and> open_docs w4 = open_docs w3 \<and>
         (\<forall>q. q \<noteq> cp \<longrightarrow> files w4 q = files w3 q) \<and>
         (if exists w3 cp then files w4 cp = files w3 cp
          else files w3 src \<noteq> None \<and> files w4 cp = files w3 src)"
  using assms
  by (auto simp: copy_file_def write_file_def split: if_splits option.splits)

lemma render_effects:
  assumes run: "render env pdf_path dpi pages gs w = (Inr saved, w')"
  shows "\<exists>doc n page_list.
     files w pdf_path = Some doc \<and> page_count env doc = Some n \<and>
     parse_pages (max_str_digits env) pages n = Inr page_list \<and>
     saved = map (out_path (length page_list = 1) (folder_of pdf_path) (folder_of pdf_path)) page_list \<and>
     (\<forall>p \<in> set page_list. page_pixmap env doc dpi gs p \<noteq> None \<and>
        files w' (out_path (length page_list = 1) (folder_of pdf_path) (folder_of pdf_path) p)
          = map_option (png env) (page_pixmap env doc dpi gs p)) \<and>
     (\<forall>q. q \<notin> set saved \<and> q \<noteq> archive_path pdf_path \<longrightarrow> files w' q = files w q) \<and>
     (if exists w (archive_path pdf_path)
      then files w' (archive_path pdf_path) = files w (archive_path pdf_path)
      else files w' (archive_path pdf_path) = files w pdf_path) \<and>
     files w' pdf_path = files w pdf_path \<and>
     exists w' (archive_path pdf_path) \<and>
     open_docs w' = open_docs w"
proof -
  define folder where "folder = folder_of pdf_path"
  define cp where "cp = archive_path pdf_path"
  from render_Inr [OF run] obtain doc n page_list w2 w3 w4 where
    doc: "files w pdf_path = Some doc" and n: "page_count env doc = Some n" and
    pl: "parse_pages (max_str_digits env) pages n = Inr page_list" and
    w2: "w2 = w\<lparr>open_docs := pdf_path # open_docs w\<rparr> \<or>
         w2 = w\<lparr>open_docs := pdf_path # open_docs w, dirs := insert folder (dirs w)\<rparr>" and
    loop: "render_loop env doc dpi gs (length page_list = 1) folder folder page_list [] w2 = (Inr saved, w3)" and
    copy: "(if \<not> exists w3 cp then copy_file env pdf_path cp w3 else Inr w3) = Inr w4" and
    w': "w' = w4\<lparr>open_docs := remove1 pdf_path (open_docs w4)\<rparr>"
    unfolding folder_def cp_def by blast
  define single where "single = (length page_list = 1)"
  define op where "op = out_path single folder folder"
  note loop' = loop [folded single_def]
  from w2 have f2: "files w2 = files w" and d2: "dirs w2 = dirs w \<or> dirs w2 = insert folder (dirs w)"
    and o2: "open_docs w2 = pdf_path # open_docs w" by auto
  from render_loop_frame [OF loop'] have
    d3: "dirs w3 = dirs w2" and o3: "open_docs w3 = open_docs w2" and
    fr3: "\<And>q. q \<notin> op ` set page_list \<Longrightarrow> files w3 q = files w2 q"
    by (simp_all add: op_def)
  from render_loop_saved [OF loop'] have saved: "saved = map op page_list" by (simp add: op_def)
  from parse_pages_sound [OF pl] have dist: "distinct page_list" and pos: "\<forall>p \<in> set page_list. 0 \<le> p"
    by auto
  have inj: "inj_on op (set page_list)"
  proof (cases single)
    case True
    then obtain x where "page_list = [x]" unfolding single_def by (cases page_list) auto
    then show ?thesis by simp
  next
    case False
    with out_path_inj [OF pos, of pdf_path] show ?thesis by (simp add: op_def folder_def)
  qed
  from render_loop_contents [OF loop' dist inj [unfolded op_def]] have cont3:
    "\<forall>p \<in> set page_list. page_pixmap env doc dpi gs p \<noteq> None \<and>
        files w3 (op p) = map_option (png env) (page_pixmap env doc dpi gs p)"
    by (simp add: op_def)
  have cp_op: "cp \<noteq> op p" for p
    unfolding cp_def op_def folder_def by (rule archive_not_out_path)
  have src_op: "op p \<noteq> pdf_path" for p
    unfolding op_def folder_def by (rule out_path_not_source)
  have cp_src: "cp \<noteq> pdf_path" unfolding cp_def by (rule archive_not_source)
  have cp_folder: "cp \<noteq> folder" unfolding cp_def folder_def by (rule archive_not_folder)
  have f3cp: "files w3 cp = files w cp" using fr3 [of cp] cp_op f2 by auto
  have f3src: "files w3 pdf_path = files w pdf_path" using fr3 [of pdf_path] src_op f2 by auto
  have ex3: "exists w3 cp \<longleftrightarrow> exists w cp"
    using f3cp d3 d2 cp_folder by (auto simp: exists_def)
  from copy_step [OF copy] have
    d4: "dirs w4 = dirs w3" and o4: "open_docs w4 = open_docs w3" and
    fr4: "\<And>q. q \<noteq> cp \<Longrightarrow> files w4 q = files w3 q" and
    c4: "if exists w3 cp then files w4 cp = files w3 cp
         else files w3 pdf_path \<noteq> None \<and> files w4 cp = files w3 pdf_path"
    by simp_all
  have fw': "files w' = files w4" and dw': "dirs w' = dirs w4" by (simp_all add: w')
  have "\<forall>p \<in> set page_list. page_pixmap env doc dpi gs p \<noteq> None \<and>
          files w' (op p) = map_option (png env) (page_pixmap env doc dpi gs p)"
    using cont3 fr4 cp_op fw' by (metis (no_types, lifting))
  moreover have "\<forall>q. q \<notin> set saved \<and> q \<noteq> cp \<longrightarrow> files w' q = files w q"
    using fr4 fr3 f2 saved fw' by auto
  moreover have "if exists w cp then files w' cp = files w cp else files w' cp = files w pdf_path"
    using c4 ex3 f3cp f3src fw' by auto
  moreover have "files w' pdf_path = files w pdf_path"
    using fr4 [of pdf_path] cp_src f3src fw' by auto
  moreover have "exists w' cp"
    using c4 fw' dw' d4 by (auto simp: exists_def split: if_splits)
  moreover have "open_docs w' = open_docs w" by (simp add: w' o4 o3 o2)
  ultimately show ?thesis
    using doc n pl saved unfolding op_def single_def folder_def cp_def by blast
qed

lemmas render_eval =
  render_def toy_def disk_def exists_def makedirs_def write_file_def copy_file_def out_path_def
  page_pixmap_def splitext_def basename_def join_def format_02d_def str_nat.simps digit_char_def

lemma render_failure_keeps_handle:
  assumes "render env pdf_path dpi pages gs w = (Inl e, w')"
    and "files w pdf_path = Some doc" and "page_count env doc = Some n"
  shows "open_docs w' = pdf_path # open_docs w"
  using assms
  by (auto simp: render_def Let_def makedirs_def
           split: sum.splits if_splits prod.splits dest!: render_loop_frame)

section \<open>The exporter: the claims\<close>

text \<open>
  Claim C2.  When \<^verbatim>\<open>render\<close> succeeds, it has opened the source and resolved a page list.
  If that list has exactly one page, the list of saved files is the single path
  \<^verbatim>\<open><folder>/<basename>.png\<close>.  If it has two or more pages, the saved files are, page by page,
  \<^verbatim>\<open><folder>/<basename>_p<NN>.png\<close>, where \<open>NN\<close> is the page number in decimal, filled with
  zeros to two digits.  Every saved path is a file afterwards, and the only other file
  that can be new is the archived copy of the source.
\<close>

theorem render_output_names:
  assumes "render env pdf_path dpi pages grayscale w = (Inr saved, w')"
  shows "\<exists>doc n page_list.
     files w pdf_path = Some doc \<and> page_count env doc = Some n \<and>
     parse_pages (max_str_digits env) pages n = Inr page_list \<and>
     (length page_list = 1 \<longrightarrow>
        saved = [join (folder_of pdf_path) (stem_of pdf_path @ ''.png'')]) \<and>
     (2 \<le> length page_list \<longrightarrow>
        saved = map (\<lambda>p. join (folder_of pdf_path) (stem_of pdf_path @ ''_p'' @ format_02d p @ ''.png''))
                  page_list \<and>
        (\<forall>p \<in> set page_list. zero_padded p (format_02d p))) \<and>
     (\<forall>f \<in> set saved. isfile w' f) \<and>
     (\<forall>f. isfile w' f \<longrightarrow> isfile w f \<or> f \<in> set saved \<or> f = archive_path pdf_path)"
proof -
  from render_effects [OF assms] obtain doc n page_list where
    doc: "files w pdf_path = Some doc" "page_count env doc = Some n" and
    pl: "parse_pages (max_str_digits env) pages n = Inr page_list" and
    saved: "saved = map (out_path (length page_list = 1) (folder_of pdf_path) (folder_of pdf_path)) page_list" and
    cont: "\<forall>p \<in> set page_list. page_pixmap env doc dpi grayscale p \<noteq> None \<and>
        files w' (out_path (length page_list = 1) (folder_of pdf_path) (folder_of pdf_path) p)
          = map_option (png env) (page_pixmap env doc dpi grayscale p)" and
    frame: "\<forall>q. q \<notin> set saved \<and> q \<noteq> archive_path pdf_path \<longrightarrow> files w' q = files w q"
    by blast
  have one: "saved = [join (folder_of pdf_path) (stem_of pdf_path @ ''.png'')]"
    if "length page_list = 1"
  proof -
    from that obtain x where "page_list = [x]" by (cases page_list) auto
    with saved show ?thesis by (simp add: out_path_single)
  qed
  have many: "saved = map (\<lambda>p. join (folder_of pdf_path) (stem_of pdf_path @ ''_p'' @ format_02d p @ ''.png'')) page_list"
    if "2 \<le> length page_list"
    using that saved by (simp add: out_path_multi)
  have pad: "\<forall>p \<in> set page_list. zero_padded p (format_02d p)"
  proof
    fix p assume "p \<in> set page_list"
    with parse_pages_sound [OF pl] have "0 \<le> p" by force
    then show "zero_padded p (format_02d p)" by (rule zero_padded_format)
  qed
  have written: "\<forall>f \<in> set saved. isfile w' f"
    using cont saved by (auto simp: isfile_def)
  have new: "\<forall>f. isfile w' f \<longrightarrow> isfile w f \<or> f \<in> set saved \<or> f = archive_path pdf_path"
    using frame by (auto simp: isfile_def)
  show ?thesis
  proof (intro exI conjI)
    show "files w pdf_path = Some doc" "page_count env doc = Some n"
      "parse_pages (max_str_digits env) pages n = Inr page_list" by fact+
    show "length page_list = 1 \<longrightarrow> saved = [join (folder_of pdf_path) (stem_of pdf_path @ ''.png'')]"
      using one by simp
    show "2 \<le> length page_list \<longrightarrow>
        saved = map (\<lambda>p. join (folder_of pdf_path) (stem_of pdf_path @ ''_p'' @ format_02d p @ ''.png''))
                  page_list \<and>
        (\<forall>p \<in> set page_list. zero_padded p (format_02d p))"
      using many pad by simp
    show "\<forall>f \<in> set saved. isfile w' f" by fact
    show "\<forall>f. isfile w' f \<longrightarrow> isfile w f \<or> f \<in> set saved \<or> f = archive_path pdf_path" by fact
  qed
qed

theorem render_output_names_witness:
  "fst (render toy ''doc/report.pdf'' 300 (Some ''2'') False disk) = Inr [''doc/report/report.png''] \<and>
   isfile (snd (render toy ''doc/report.pdf'' 300 (Some ''2'') False disk)) ''doc/report/report.png'' \<and>
   fst (render toy ''doc/report.pdf'' 300 None False disk) =
     Inr [''doc/report/report_p01.png'', ''doc/report/report_p02.png'', ''doc/report/report_p03.png'',
          ''doc/report/report_p04.png'', ''doc/report/report_p05.png''] \<and>
   isfile (snd (render toy ''doc/report.pdf'' 300 None False disk)) ''doc/report/report_p05.png''"
proof -
  have a: "fst (render toy ''doc/report.pdf'' 300 (Some ''2'') False disk) = Inr [''doc/report/report.png'']"
    by (simp add: render_eval parse_eval)
  then have a': "render toy ''doc/report.pdf'' 300 (Some ''2'') False disk =
      (Inr [''doc/report/report.png''], snd (render toy ''doc/report.pdf'' 300 (Some ''2'') False disk))"
    by (simp add: prod_eq_iff)
  have b: "fst (render toy ''doc/report.pdf'' 300 None False disk) =
     Inr [''doc/report/report_p01.png'', ''doc/report/report_p02.png'', ''doc/report/report_p03.png'',
          ''doc/report/report_p04.png'', ''doc/report/report_p05.png'']"
    by (simp add: render_eval parse_eval upto.simps)
  then have b': "render toy ''doc/report.pdf'' 300 None False disk =
     (Inr [''doc/report/report_p01.png'', ''doc/report/report_p02.png'', ''doc/report/report_p03.png'',
          ''doc/report/report_p04.png'', ''doc/report/report_p05.png''],
      snd (render toy ''doc/report.pdf'' 300 None False disk))"
    by (simp add: prod_eq_iff)
  from render_output_names [OF a'] have "isfile (snd (render toy ''doc/report.pdf'' 300 (Some ''2'') False disk)) ''doc/report/report.png''"
    by auto
  moreover from render_output_names [OF b'] have "isfile (snd (render toy ''doc/report.pdf'' 300 None False disk)) ''doc/report/report_p05.png''"
    by auto
  ultimately show ?thesis using a b by simp
qed

text \<open>
  Claim C3, on the code.  With an invalid page specification \<^verbatim>\<open>render\<close> raises after it has
  opened the document, and the handle is still open in the world it leaves behind: the
  call to \<^verbatim>\<open>doc.close()\<close> on line 83 is not reached.
\<close>

theorem render_invalid_pages_leaves_handle_open:
  "open_docs disk = [] \<and>
   render toy ''doc/report.pdf'' 300 (Some ''0'') False disk =
     (Inl (ValueError (Invalid_page_number 0)), disk\<lparr>open_docs := [''doc/report.pdf'']\<rparr>)"
  by (simp add: render_eval parse_eval)

text \<open>
  Claim C4, as amended.  The copy of the source goes to \<open>archive_path\<close>, that is
  \<^verbatim>\<open><folder>/<basename>.pdf\<close>, whatever the extension of the source is.  When \<^verbatim>\<open>render\<close>
  succeeds: if something existed at that path before the call, the file there is what it
  was; if nothing did, the file there has the bytes of the source; the source itself is
  unchanged; and a second successful call on the same source leaves the archived copy and
  the source as they are.
\<close>

theorem render_archive_copy:
  assumes "render env pdf_path dpi pages grayscale w = (Inr saved, w1)"
  shows "(exists w (archive_path pdf_path) \<longrightarrow>
            files w1 (archive_path pdf_path) = files w (archive_path pdf_path)) \<and>
         (\<not> exists w (archive_path pdf_path) \<longrightarrow>
            files w1 (archive_path pdf_path) = files w pdf_path) \<and>
         files w1 pdf_path = files w pdf_path \<and>
         (\<forall>dpi2 pages2 grayscale2 saved2 w2.
            render env pdf_path dpi2 pages2 grayscale2 w1 = (Inr saved2, w2) \<longrightarrow>
              files w2 (archive_path pdf_path) = files w1 (archive_path pdf_path) \<and>
              files w2 pdf_path = files w pdf_path)"
proof -
  from render_effects [OF assms] have
    one: "if exists w (archive_path pdf_path)
          then files w1 (archive_path pdf_path) = files w (archive_path pdf_path)
          else files w1 (archive_path pdf_path) = files w pdf_path" and
    src: "files w1 pdf_path = files w pdf_path" and
    ex: "exists w1 (archive_path pdf_path)"
    by blast+
  have two: "files w2 (archive_path pdf_path) = files w1 (archive_path pdf_path) \<and>
             files w2 pdf_path = files w pdf_path"
    if "render env pdf_path dpi2 pages2 grayscale2 w1 = (Inr saved2, w2)"
    for dpi2 pages2 grayscale2 saved2 w2
  proof -
    from render_effects [OF that] have
      "if exists w1 (archive_path pdf_path)
       then files w2 (archive_path pdf_path) = files w1 (archive_path pdf_path)
       else files w2 (archive_path pdf_path) = files w1 pdf_path"
      and "files w2 pdf_path = files w1 pdf_path"
      by blast+
    with ex src show ?thesis by simp
  qed
  from one src two show ?thesis by (simp split: if_splits)
qed

theorem render_archive_copy_witness:
  "\<not> exists disk (archive_path ''doc/report.pdf'') \<and>
   fst (render toy ''doc/report.pdf'' 300 (Some ''2'') False disk) = Inr [''doc/report/report.png''] \<and>
   files (snd (render toy ''doc/report.pdf'' 300 (Some ''2'') False disk)) (archive_path ''doc/report.pdf'')
     = Some ''abcde'' \<and>
   files (snd (render toy ''doc/report.pdf'' 300 (Some ''1'') True
            (snd (render toy ''doc/report.pdf'' 300 (Some ''2'') False disk))))
     (archive_path ''doc/report.pdf'') = Some ''abcde''"
proof -
  let ?r1 = "render toy ''doc/report.pdf'' 300 (Some ''2'') False disk"
  let ?r2 = "render toy ''doc/report.pdf'' 300 (Some ''1'') True (snd ?r1)"
  have ap: "archive_path ''doc/report.pdf'' = ''doc/report/report.pdf''"
    by (simp add: archive_path_def folder_of_def stem_of_def splitext_def basename_def join_def)
  have ne: "\<not> exists disk (archive_path ''doc/report.pdf'')"
    unfolding ap by (simp add: exists_def disk_def)
  have src: "files disk ''doc/report.pdf'' = Some ''abcde''" by (simp add: disk_def)
  have a: "fst ?r1 = Inr [''doc/report/report.png'']"
    by (simp add: render_eval parse_eval)
  then have a': "?r1 = (Inr [''doc/report/report.png''], snd ?r1)" by (simp add: prod_eq_iff)
  have b: "fst ?r2 = Inr [''doc/report/report.png'']"
    by (simp add: render_eval parse_eval)
  then have b': "?r2 = (Inr [''doc/report/report.png''], snd ?r2)" by (simp add: prod_eq_iff)
  from render_archive_copy [OF a'] ne src have
    one: "files (snd ?r1) (archive_path ''doc/report.pdf'') = Some ''abcde''" and
    two: "\<forall>dpi2 pages2 grayscale2 saved2 w2.
            render toy ''doc/report.pdf'' dpi2 pages2 grayscale2 (snd ?r1) = (Inr saved2, w2) \<longrightarrow>
              files w2 (archive_path ''doc/report.pdf'') = files (snd ?r1) (archive_path ''doc/report.pdf'')"
    by simp_all
  from two b' have "files (snd ?r2) (archive_path ''doc/report.pdf'')
      = files (snd ?r1) (archive_path ''doc/report.pdf'')" by blast
  with one ne a show ?thesis by simp
qed

text \<open>
  Claim C4 as stated fails for a source whose extension is not \<^verbatim>\<open>.pdf\<close>: for
  \<^verbatim>\<open>scan.PDF\<close>, with nothing in the way, the export succeeds and no file exists under the
  original file name in the output directory; the copy is \<^verbatim>\<open>scan/scan.pdf\<close>.
\<close>

theorem render_archive_name_counterexample:
  "fst (render toy ''scan.PDF'' 300 None False disk) = Inr [''scan/scan.png''] \<and>
   basename ''scan.PDF'' = ''scan.PDF'' \<and>
   original_path ''scan.PDF'' = ''scan/scan.PDF'' \<and>
   \<not> exists disk (original_path ''scan.PDF'') \<and>
   files (snd (render toy ''scan.PDF'' 300 None False disk)) (original_path ''scan.PDF'') = None \<and>
   files (snd (render toy ''scan.PDF'' 300 None False disk)) ''scan/scan.pdf'' = Some ''z''"
  by (simp add: render_eval parse_eval upto.simps original_path_def folder_of_def)

text \<open>
  Claim C8.  When \<^verbatim>\<open>render\<close> succeeds, the list it returns has one path per page of the
  resolved page list, in the order of that list, which is strictly ascending; the file at
  the path of a page holds the PNG of that page; and the path of the archived copy of the
  source is not in the list.
\<close>

theorem render_returns_written_pages:
  assumes "render env pdf_path dpi pages grayscale w = (Inr saved, w')"
  shows "\<exists>doc n page_list.
     files w pdf_path = Some doc \<and> page_count env doc = Some n \<and>
     parse_pages (max_str_digits env) pages n = Inr page_list \<and>
     sorted_wrt (<) page_list \<and>
     saved = map (out_path (length page_list = 1) (folder_of pdf_path) (folder_of pdf_path)) page_list \<and>
     (\<forall>p \<in> set page_list. page_pixmap env doc dpi grayscale p \<noteq> None \<and>
        files w' (out_path (length page_list = 1) (folder_of pdf_path) (folder_of pdf_path) p)
          = map_option (png env) (page_pixmap env doc dpi grayscale p)) \<and>
     archive_path pdf_path \<notin> set saved"
proof -
  from render_effects [OF assms] obtain doc n page_list where
    doc: "files w pdf_path = Some doc" "page_count env doc = Some n" and
    pl: "parse_pages (max_str_digits env) pages n = Inr page_list" and
    saved: "saved = map (out_path (length page_list = 1) (folder_of pdf_path) (folder_of pdf_path)) page_list" and
    cont: "\<forall>p \<in> set page_list. page_pixmap env doc dpi grayscale p \<noteq> None \<and>
        files w' (out_path (length page_list = 1) (folder_of pdf_path) (folder_of pdf_path) p)
          = map_option (png env) (page_pixmap env doc dpi grayscale p)"
    by blast
  from parse_pages_sound [OF pl] have asc: "sorted_wrt (<) page_list" by simp
  have "archive_path pdf_path \<notin> set saved"
    unfolding saved using archive_not_out_path [of pdf_path] by auto
  with doc pl asc saved cont show ?thesis by blast
qed

theorem render_returns_written_pages_witness:
  "fst (render toy ''doc/report.pdf'' 300 (Some ''3,1-2'') False disk) =
     Inr [''doc/report/report_p01.png'', ''doc/report/report_p02.png'', ''doc/report/report_p03.png''] \<and>
   archive_path ''doc/report.pdf'' = ''doc/report/report.pdf'' \<and>
   ''doc/report/report.pdf'' \<notin> set [''doc/report/report_p01.png'', ''doc/report/report_p02.png'',
                                      ''doc/report/report_p03.png''] \<and>
   files (snd (render toy ''doc/report.pdf'' 300 (Some ''3,1-2'') False disk)) ''doc/report/report_p03.png''
     = Some ''PNGc''"
proof -
  let ?r = "render toy ''doc/report.pdf'' 300 (Some ''3,1-2'') False disk"
  have a: "fst ?r = Inr [''doc/report/report_p01.png'', ''doc/report/report_p02.png'',
                         ''doc/report/report_p03.png'']"
    by (simp add: render_eval parse_eval upto.simps)
  then have a': "?r = (Inr [''doc/report/report_p01.png'', ''doc/report/report_p02.png'',
                            ''doc/report/report_p03.png''], snd ?r)"
    by (simp add: prod_eq_iff)
  have ap: "archive_path ''doc/report.pdf'' = ''doc/report/report.pdf''"
    by (simp add: archive_path_def folder_of_def stem_of_def splitext_def basename_def join_def)
  from render_returns_written_pages [OF a'] obtain doc n page_list where
    doc: "files disk ''doc/report.pdf'' = Some doc" and n: "page_count toy doc = Some n" and
    pl: "parse_pages (max_str_digits toy) (Some ''3,1-2'') n = Inr page_list" and
    cont: "\<forall>p \<in> set page_list. page_pixmap toy doc 300 False p \<noteq> None \<and>
        files (snd ?r) (out_path (length page_list = 1) (folder_of ''doc/report.pdf'')
                          (folder_of ''doc/report.pdf'') p)
          = map_option (png toy) (page_pixmap toy doc 300 False p)" and
    na: "archive_path ''doc/report.pdf'' \<notin> set [''doc/report/report_p01.png'',
            ''doc/report/report_p02.png'', ''doc/report/report_p03.png'']"
    by blast
  from doc have d: "doc = ''abcde''" by (simp add: disk_def)
  with n have n5: "n = 5" by (simp add: toy_def)
  from pl have p: "page_list = [1, 2, 3]" unfolding n5 by (simp add: toy_def parse_eval upto.simps)
  from cont have "files (snd ?r) (out_path (length page_list = 1) (folder_of ''doc/report.pdf'')
                          (folder_of ''doc/report.pdf'') 3)
          = map_option (png toy) (page_pixmap toy doc 300 False 3)"
    unfolding p by simp
  then have "files (snd ?r) ''doc/report/report_p03.png'' = Some ''PNGc''"
    unfolding p d
    by (simp add: out_path_def folder_of_def splitext_def basename_def join_def format_02d_def
          str_nat.simps digit_char_def page_pixmap_def toy_def)
  with a ap na show ?thesis by simp
qed




end
